theory Spec2Isabelle
  imports Main "HOL-Library.Sublist"
begin

section \<open>The module graph of \<^verbatim>\<open>src/module.ts\<close>\<close>

text \<open>
  A \<^verbatim>\<open>Module\<close> is an object with identity: the relation lists hold references to other
  modules, and the methods compare references (\<^verbatim>\<open>module == this\<close>,
  \<^verbatim>\<open>processed.indexOf(this)\<close>). The embedding therefore keeps an explicit store: a
  module reference is a number, and the store maps each reference to the fields of
  that object. The fields whose TypeScript names are reserved words of Isabelle carry a
  suffix: \<^verbatim>\<open>file\<close> is \<open>file_ref\<close>, and \<^verbatim>\<open>includes\<close>, \<^verbatim>\<open>imports\<close>,
  \<^verbatim>\<open>excludes\<close> are \<open>includes_list\<close>, \<open>imports_list\<close>, \<open>excludes_list\<close>.
\<close>

type_synonym mid = nat

text \<open>
  The only callbacks that \<^verbatim>\<open>module.ts\<close> itself hands to \<^verbatim>\<open>require\<close> are the two
  closures of the constructor: one calls \<^verbatim>\<open>this.import(module)\<close>, the other
  \<^verbatim>\<open>this.exclude(module)\<close>, each only when \<^verbatim>\<open>module\<close> is not null. The module they
  are bound to (\<^verbatim>\<open>this\<close>) is the owner of the declaration.
\<close>

datatype callback = ImportCallback | ExcludeCallback

text \<open>
  The \<^verbatim>\<open>digo.File\<close> object is external; what the module does with it is to call
  \<^verbatim>\<open>dep(path, {source: tag})\<close>, so a file is the list of the (path, tag) pairs recorded
  so far.
\<close>

type_synonym File = "(string \<times> string) list"

record ModuleOptions =
  opt_imports :: "string list option"
  opt_excludes :: "string list option"
  mimeTypes :: "(string \<times> string) list option"

record module =
  packer :: "string \<Rightarrow> mid"
  file_ref :: "File option"
  options :: ModuleOptions
  srcPath :: "string option"
  destPath :: "string option"
  requires :: "(string option \<times> callback) list option"
  resolved :: bool
  includes_list :: "mid list"
  imports_list :: "mid list"
  excludes_list :: "mid list"

text \<open>
  \<open>packer m\<close> is \<^verbatim>\<open>this.packer.getModuleFromPath\<close> of module \<open>m\<close>: the packer class is
  not part of this file, so the lookup from a path to the module registered for it is
  taken as given. \<open>requires\<close> and \<open>file_ref\<close> are \<open>None\<close> once \<^verbatim>\<open>delete\<close> has
  removed the property.

  The state is the store together with the sequence of callback invocations made so far
  (owner of the declaration, callback, argument) and the lines printed on the console.
  The sequence of calls is not a field of the program; it records the calls
  \<^verbatim>\<open>req[1](module)\<close> and \<^verbatim>\<open>req[1](null)\<close> so that statements about which
  callbacks have run can be written down.
\<close>

record state =
  mods :: "mid \<Rightarrow> module"
  calls :: "(mid \<times> callback \<times> mid option) list"
  console :: "string list"

datatype error = TypeError

text \<open>JavaScript truthiness of a \<^verbatim>\<open>string | undefined\<close>: undefined and the empty
  string are falsy.\<close>

definition truthy :: "string option \<Rightarrow> bool" where
  "truthy p = (case p of None \<Rightarrow> False | Some str \<Rightarrow> str \<noteq> [])"

definition upd :: "state \<Rightarrow> mid \<Rightarrow> (module \<Rightarrow> module) \<Rightarrow> state" where
  "upd s this f = s\<lparr>mods := (mods s)(this := f (mods s this))\<rparr>"

subsection \<open>Declaring dependencies\<close>

text \<open>
  \<^verbatim>\<open>console.assert(condition)\<close> prints a line when the condition is false and
  returns; it raises nothing and stops nothing.
\<close>

definition console_assert :: "bool \<Rightarrow> state \<Rightarrow> state" where
  "console_assert condition s =
     (if condition then s else s\<lparr>console := console s @ [''Assertion failed'']\<rparr>)"

text \<open>
  \<^verbatim>\<open>require\<close> has two statements: \<^verbatim>\<open>console.assert(!this.resolved)\<close>, then
  \<^verbatim>\<open>this.requires.push([path, callback])\<close>, which is \<open>requires_push\<close>. Pushing onto
  a deleted \<^verbatim>\<open>requires\<close> is a \<open>TypeError\<close>.
\<close>

definition requires_push ::
  "state \<Rightarrow> mid \<Rightarrow> string option \<Rightarrow> callback \<Rightarrow> (error + unit) \<times> state" where
  "requires_push s this path cb =
     (case requires (mods s this) of
        None \<Rightarrow> (Inl TypeError, s)
      | Some reqs \<Rightarrow>
          (Inr (), upd s this (\<lambda>m. m\<lparr>requires := Some (reqs @ [(path, cb)])\<rparr>)))"

definition require ::
  "state \<Rightarrow> mid \<Rightarrow> string option \<Rightarrow> callback \<Rightarrow> (error + unit) \<times> state" where
  "require s this path cb =
     requires_push (console_assert (\<not> resolved (mods s this)) s) this path cb"

subsection \<open>The three relations\<close>

text \<open>\<^verbatim>\<open>this.file.dep(path, {source: tag})\<close>; reading \<^verbatim>\<open>dep\<close> of a deleted
  \<^verbatim>\<open>file\<close> is a \<open>TypeError\<close>.\<close>

definition file_dep :: "state \<Rightarrow> mid \<Rightarrow> string \<Rightarrow> string \<Rightarrow> (error + unit) \<times> state" where
  "file_dep s this path tag =
     (case file_ref (mods s this) of
        None \<Rightarrow> (Inl TypeError, s)
      | Some f \<Rightarrow> (Inr (), upd s this (\<lambda>m. m\<lparr>file_ref := Some (f @ [(path, tag)])\<rparr>)))"

text \<open>
  The recursive methods take a bound on the depth of the recursion as their first
  argument and return \<open>None\<close> when the bound is reached, so that a traversal that would
  not return is the value \<open>None\<close> for every bound.

  \<^verbatim>\<open>hasInclude\<close>: the loop over \<^verbatim>\<open>this.includes\<close> returns at the first entry that
  answers true.
\<close>

primrec hasInclude_loop :: "(mid \<Rightarrow> bool option) \<Rightarrow> mid list \<Rightarrow> bool option" where
  "hasInclude_loop rec [] = Some False"
| "hasInclude_loop rec (inc # incs) =
     (case rec inc of
        None \<Rightarrow> None
      | Some b \<Rightarrow> if b then Some True else hasInclude_loop rec incs)"

fun hasInclude :: "nat \<Rightarrow> state \<Rightarrow> mid \<Rightarrow> mid \<Rightarrow> bool option" where
  "hasInclude 0 s this module = None"
| "hasInclude (Suc n) s this module =
     (if module = this then Some True
      else hasInclude_loop (\<lambda>inc. hasInclude n s inc module) (includes_list (mods s this)))"

definition include_module ::
  "nat \<Rightarrow> state \<Rightarrow> mid \<Rightarrow> mid \<Rightarrow> ((error + bool) \<times> state) option" where
  "include_module n s this module =
     (case hasInclude n s module this of
        None \<Rightarrow> None
      | Some b \<Rightarrow>
          if b then Some (Inr False, s)
          else
            let s1 = upd s this (\<lambda>m. m\<lparr>includes_list := includes_list m @ [module]\<rparr>) in
            if truthy (srcPath (mods s1 module)) then
              (case file_dep s1 this (the (srcPath (mods s1 module))) ''WebPack:include'' of
                 (Inl e, s2) \<Rightarrow> Some (Inl e, s2)
               | (Inr u, s2) \<Rightarrow> Some (Inr True, s2))
            else Some (Inr True, s1))"

definition import :: "state \<Rightarrow> mid \<Rightarrow> mid \<Rightarrow> (error + unit) \<times> state" where
  "import s this module =
     (if module = this then (Inr (), s)
      else
        let s1 = upd s this (\<lambda>m. m\<lparr>imports_list := imports_list m @ [module]\<rparr>) in
        if truthy (srcPath (mods s1 module)) then
          file_dep s1 this (the (srcPath (mods s1 module))) ''WebPack:import''
        else (Inr (), s1))"

definition exclude :: "state \<Rightarrow> mid \<Rightarrow> mid \<Rightarrow> (error + unit) \<times> state" where
  "exclude s this module =
     (if module = this then (Inr (), s)
      else
        let s1 = upd s this (\<lambda>m. m\<lparr>excludes_list := excludes_list m @ [module]\<rparr>) in
        if truthy (srcPath (mods s1 module)) then
          file_dep s1 this (the (srcPath (mods s1 module))) ''WebPack:exclude''
        else (Inr (), s1))"

subsection \<open>The module list\<close>

text \<open>
  \<^verbatim>\<open>result\<close> and \<^verbatim>\<open>processed\<close> are arrays that every recursive call pushes onto:
  they are passed along as a pair and returned. The store is only read.
\<close>

type_synonym acc = "mid list \<times> mid list"

primrec for_each :: "(mid \<Rightarrow> acc \<Rightarrow> acc option) \<Rightarrow> mid list \<Rightarrow> acc \<Rightarrow> acc option" where
  "for_each body [] a = Some a"
| "for_each body (module # rest) a =
     (case body module a of None \<Rightarrow> None | Some a' \<Rightarrow> for_each body rest a')"

fun addImportsTo :: "nat \<Rightarrow> state \<Rightarrow> mid \<Rightarrow> acc \<Rightarrow> acc option" where
  "addImportsTo 0 s this a = None"
| "addImportsTo (Suc n) s this a =
     (case a of (result, processed) \<Rightarrow>
        if this \<in> set processed then Some (result, processed)
        else
          (case for_each (addImportsTo n s) (imports_list (mods s this))
                  (result, processed @ [this]) of
             None \<Rightarrow> None
           | Some (result', processed') \<Rightarrow> Some (result' @ [this], processed')))"

fun addExcludesTo :: "nat \<Rightarrow> state \<Rightarrow> mid \<Rightarrow> acc \<Rightarrow> acc option" where
  "addExcludesTo 0 s this a = None"
| "addExcludesTo (Suc n) s this a =
     (case a of (result, processed) \<Rightarrow>
        if this \<in> set processed then Some (result, processed)
        else
          for_each
            (\<lambda>module a1.
               case addImportsTo n s module a1 of
                 None \<Rightarrow> None
               | Some a2 \<Rightarrow> addExcludesTo n s module a2)
            (excludes_list (mods s this))
            (result, processed @ [this]))"

definition getModuleList :: "nat \<Rightarrow> state \<Rightarrow> mid \<Rightarrow> mid list option" where
  "getModuleList n s this =
     (case addImportsTo n s this ([], []) of
        None \<Rightarrow> None
      | Some (imports, p1) \<Rightarrow>
          (case addExcludesTo n s this ([], [this]) of
             None \<Rightarrow> None
           | Some (excludes, p2) \<Rightarrow>
               if excludes \<noteq> [] then Some (filter (\<lambda>module. module \<notin> set excludes) imports)
               else Some imports))"

subsection \<open>Resolution\<close>

text \<open>
  A call \<^verbatim>\<open>req[1](module)\<close> of a declaration owned by \<open>this\<close>. The call is entered
  in \<open>calls\<close>, then the body of the closure runs: \<^verbatim>\<open>if (module) this.import(module)\<close>,
  or the same with \<^verbatim>\<open>exclude\<close>.
\<close>

definition invoke ::
  "state \<Rightarrow> mid \<Rightarrow> callback \<Rightarrow> mid option \<Rightarrow> (error + unit) \<times> state" where
  "invoke s this cb arg =
     (let s1 = s\<lparr>calls := calls s @ [(this, cb, arg)]\<rparr> in
      case arg of
        None \<Rightarrow> (Inr (), s1)
      | Some module \<Rightarrow>
          (case cb of
             ImportCallback \<Rightarrow> import s1 this module
           | ExcludeCallback \<Rightarrow> exclude s1 this module))"

text \<open>
  The loop of \<^verbatim>\<open>resolve\<close> over \<^verbatim>\<open>this.requires\<close>; \<open>rec\<close> is the recursive call
  \<^verbatim>\<open>module.resolve()\<close>. An exception leaves the loop with the state reached so far.
  The loop takes the list as it is on entry: neither of the two callbacks nor a nested
  \<^verbatim>\<open>resolve\<close> writes the \<^verbatim>\<open>requires\<close> of the module whose loop is running.
\<close>

type_synonym outcome = "(error + unit) \<times> state"

primrec for_requires ::
  "(state \<Rightarrow> mid \<Rightarrow> outcome option) \<Rightarrow> state \<Rightarrow> mid \<Rightarrow>
   (string option \<times> callback) list \<Rightarrow> outcome option" where
  "for_requires rec s this [] = Some (Inr (), s)"
| "for_requires rec s this (req # reqs) =
     (if truthy (fst req) then
        (let module = packer (mods s this) (the (fst req)) in
         case rec s module of
           None \<Rightarrow> None
         | Some (Inl e, s1) \<Rightarrow> Some (Inl e, s1)
         | Some (Inr u, s1) \<Rightarrow>
             (case invoke s1 this (snd req) (Some module) of
                (Inl e, s2) \<Rightarrow> Some (Inl e, s2)
              | (Inr u', s2) \<Rightarrow> for_requires rec s2 this reqs))
      else
        (case invoke s this (snd req) None of
           (Inl e, s2) \<Rightarrow> Some (Inl e, s2)
         | (Inr u', s2) \<Rightarrow> for_requires rec s2 this reqs))"

text \<open>
  \<^verbatim>\<open>resolve\<close>. Iterating a deleted \<^verbatim>\<open>requires\<close> is a \<open>TypeError\<close>. The two
  \<^verbatim>\<open>delete\<close> statements run only when the loop has ended without an exception.
\<close>

fun resolve :: "nat \<Rightarrow> state \<Rightarrow> mid \<Rightarrow> outcome option" where
  "resolve 0 s this = None"
| "resolve (Suc n) s this =
     (if resolved (mods s this) then Some (Inr (), s)
      else
        let s1 = upd s this (\<lambda>m. m\<lparr>resolved := True\<rparr>) in
        case requires (mods s1 this) of
          None \<Rightarrow> Some (Inl TypeError, s1)
        | Some reqs \<Rightarrow>
            (case for_requires (resolve n) s1 this reqs of
               None \<Rightarrow> None
             | Some (Inl e, s2) \<Rightarrow> Some (Inl e, s2)
             | Some (Inr u, s2) \<Rightarrow>
                 Some (Inr (), upd s2 this (\<lambda>m. m\<lparr>requires := None, file_ref := None\<rparr>))))"

section \<open>Notions used in the statements\<close>

text \<open>The edges of the \<^verbatim>\<open>includes\<close> relation: \<open>(t, m)\<close> when \<open>m\<close> is an entry of
  the list of \<open>t\<close>.\<close>

definition includes_rel :: "state \<Rightarrow> (mid \<times> mid) set" where
  "includes_rel s = {(t, m). m \<in> set (includes_list (mods s t))}"

definition includes_ok :: "state \<Rightarrow> bool" where
  "includes_ok s \<longleftrightarrow> finite (includes_rel s) \<and> acyclic (includes_rel s)"

text \<open>A sequence of calls \<^verbatim>\<open>this.include(module)\<close>, each given as the triple
  \<open>(n, this, module)\<close> with the bound \<open>n\<close> on the depth of that call; a caller may catch
  an exception and go on, so the sequence continues from the state that the call has
  left, whatever its outcome.\<close>

fun include_calls :: "state \<Rightarrow> (nat \<times> mid \<times> mid) list \<Rightarrow> state option" where
  "include_calls s [] = Some s"
| "include_calls s ((n, this, module) # cs) =
     (case include_module n s this module of
        None \<Rightarrow> None
      | Some (r, s') \<Rightarrow> include_calls s' cs)"

definition no_self_edges :: "state \<Rightarrow> bool" where
  "no_self_edges s \<longleftrightarrow>
     (\<forall>x. x \<notin> set (includes_list (mods s x)) \<and>
          x \<notin> set (imports_list (mods s x)) \<and>
          x \<notin> set (excludes_list (mods s x)))"

text \<open>What a run of \<^verbatim>\<open>resolve\<close> may change between two states: the flag only rises,
  the lists of imports and excludes and the record of calls only gain entries at the
  end, and the other fields but \<open>requires\<close> and \<open>file_ref\<close> stay.\<close>

definition grows :: "state \<Rightarrow> state \<Rightarrow> bool" where
  "grows s s' \<longleftrightarrow>
     prefix (calls s) (calls s') \<and>
     (\<forall>x. (resolved (mods s x) \<longrightarrow> resolved (mods s' x)) \<and>
          packer (mods s' x) = packer (mods s x) \<and>
          options (mods s' x) = options (mods s x) \<and>
          srcPath (mods s' x) = srcPath (mods s x) \<and>
          destPath (mods s' x) = destPath (mods s x) \<and>
          includes_list (mods s' x) = includes_list (mods s x) \<and>
          prefix (imports_list (mods s x)) (imports_list (mods s' x)) \<and>
          prefix (excludes_list (mods s x)) (excludes_list (mods s' x)))"

text \<open>
  The states from which \<^verbatim>\<open>resolve\<close> is shown to return. Only finitely many modules
  are unresolved (a run of the program has created finitely many), and every unresolved
  module still has its \<open>requires\<close> and its \<open>file_ref\<close>: the constructor sets both and
  only \<^verbatim>\<open>resolve\<close> deletes them, after it has set the flag.
\<close>

definition unresolved :: "state \<Rightarrow> mid set" where
  "unresolved s = {x. \<not> resolved (mods s x)}"

definition unresolved_intact :: "state \<Rightarrow> bool" where
  "unresolved_intact s \<longleftrightarrow>
     (\<forall>x. \<not> resolved (mods s x) \<longrightarrow>
          requires (mods s x) \<noteq> None \<and> file_ref (mods s x) \<noteq> None)"

text \<open>The modules that differ between two states are modules that were unresolved in
  the first and are resolved in the second.\<close>

definition settles :: "state \<Rightarrow> state \<Rightarrow> bool" where
  "settles s s' \<longleftrightarrow>
     (\<forall>y. mods s' y = mods s y \<or> (\<not> resolved (mods s y) \<and> resolved (mods s' y)))"

section \<open>Example graphs\<close>

definition blank :: module where
  "blank = \<lparr>packer = (\<lambda>p. 0), file_ref = Some [],
            options = \<lparr>opt_imports = None, opt_excludes = None, mimeTypes = None\<rparr>,
            srcPath = None, destPath = None, requires = Some [], resolved = False,
            includes_list = [], imports_list = [], excludes_list = []\<rparr>"

definition fresh :: state where
  "fresh = \<lparr>mods = (\<lambda>x. blank), calls = [], console = []\<rparr>"

text \<open>Module 0 imports module 1 and excludes it; module 1 imports module 2.\<close>

definition excluding_graph :: state where
  "excluding_graph =
     \<lparr>mods = (\<lambda>x. blank)
        (0 := blank\<lparr>imports_list := [1], excludes_list := [1]\<rparr>,
         1 := blank\<lparr>imports_list := [2]\<rparr>),
      calls = [], console = []\<rparr>"

text \<open>Module 0 imports modules 1 and 2, in this order; module 1 imports module 2.\<close>

definition diamond_graph :: state where
  "diamond_graph =
     \<lparr>mods = (\<lambda>x. blank)
        (0 := blank\<lparr>imports_list := [1, 2]\<rparr>,
         1 := blank\<lparr>imports_list := [2]\<rparr>),
      calls = [], console = []\<rparr>"

text \<open>Modules 0 and 1 import each other.\<close>

definition cyclic_graph :: state where
  "cyclic_graph =
     \<lparr>mods = (\<lambda>x. blank)
        (0 := blank\<lparr>imports_list := [1]\<rparr>,
         1 := blank\<lparr>imports_list := [0]\<rparr>),
      calls = [], console = []\<rparr>"

text \<open>A module that has been resolved, with no edges.\<close>

definition settled :: module where
  "settled = blank\<lparr>file_ref := None, requires := None, resolved := True\<rparr>"

text \<open>
  Module 0 has declared the path \<^verbatim>\<open>/b\<close> with the import callback and an absent path
  with the exclude callback; its packer maps every path to module 1, which has the
  source path \<^verbatim>\<open>/b\<close> and has declared nothing. Every other module is resolved.
\<close>

definition pending_graph :: state where
  "pending_graph =
     \<lparr>mods = (\<lambda>x. settled)
        (0 := blank\<lparr>packer := (\<lambda>p. 1),
                     requires := Some [(Some ''/b'', ImportCallback), (None, ExcludeCallback)]\<rparr>,
         1 := blank\<lparr>srcPath := Some ''/b''\<rparr>),
      calls = [], console = []\<rparr>"

text \<open>The same two modules once \<^verbatim>\<open>resolve\<close> has run on module 0.\<close>

definition resolved_graph :: state where
  "resolved_graph =
     \<lparr>mods = (\<lambda>x. settled)
        (0 := blank\<lparr>packer := (\<lambda>p. 1), file_ref := None, requires := None, resolved := True,
                     imports_list := [1]\<rparr>,
         1 := blank\<lparr>srcPath := Some ''/b'', file_ref := None, requires := None,
                     resolved := True\<rparr>),
      calls = [(0, ImportCallback, Some 1), (0, ExcludeCallback, None)], console = []\<rparr>"

text \<open>Module 0 of \<open>pending_graph\<close> inside its own \<^verbatim>\<open>resolve\<close>: the flag is set
  (line 128) and \<^verbatim>\<open>requires\<close> is not yet deleted (line 142).\<close>

definition resolving_graph :: state where
  "resolving_graph = upd pending_graph 0 (\<lambda>m. m\<lparr>resolved := True\<rparr>)"

text \<open>The state after \<^verbatim>\<open>include\<close> of module 1 into module 0, from \<open>fresh\<close>.\<close>

definition one_include :: state where
  "one_include = upd fresh 0 (\<lambda>m. m\<lparr>includes_list := includes_list m @ [1]\<rparr>)"

section \<open>The state after an update\<close>

lemma mods_upd: "mods (upd s t f) x = (if x = t then f (mods s t) else mods s x)"
  by (simp add: upd_def)

lemma calls_upd: "calls (upd s t f) = calls s"
  by (simp add: upd_def)

section \<open>The module list\<close>

text \<open>
  Claim C1. With A importing B, B importing C and A excluding B, the list of A should hold
  neither B nor C. In \<open>excluding_graph\<close> (A, B, C are the modules 0, 1, 2) the method
  returns all three modules: \<^verbatim>\<open>addExcludesTo\<close> is entered with \<^verbatim>\<open>[this]\<close> as the
  processed modules, finds \<^verbatim>\<open>this\<close> there and returns before it looks at an
  excludes edge.
\<close>

theorem getModuleList_keeps_excluded:
  "getModuleList (Suc (Suc (Suc 0))) excluding_graph 0 = Some [2, 1, 0]"
  by (simp add: getModuleList_def excluding_graph_def blank_def)

text \<open>
  Claim C2. For every module, every state of the relations and every bound on the depth,
  \<^verbatim>\<open>getModuleList\<close> returns the list that \<^verbatim>\<open>addImportsTo\<close> builds from two empty
  arrays, unfiltered, and it returns exactly when \<^verbatim>\<open>addImportsTo\<close> does: the call
  \<^verbatim>\<open>addExcludesTo(excludes, [this])\<close> returns at its first test with an empty
  exclusion list.
\<close>

theorem getModuleList_is_addImportsTo:
  "getModuleList n s this = map_option fst (addImportsTo n s this ([], [])) \<and>
   addExcludesTo (Suc n) s this ([], [this]) = Some ([], [this])"
  by (cases n) (auto simp: getModuleList_def split: option.splits)

text \<open>
  Claim C5. When the imports of A are X then Y, the imports of X are Y alone and Y imports
  nothing, \<^verbatim>\<open>getModuleList\<close> on A returns exactly Y, X, A, for every bound of at least
  three on the depth of the recursion (A, X and Y are nested three deep).
\<close>

theorem getModuleList_order:
  assumes "imports_list (mods s A) = [X, Y]"
    and "imports_list (mods s X) = [Y]"
    and "imports_list (mods s Y) = []"
  shows "getModuleList (Suc (Suc (Suc n))) s A = Some [Y, X, A]"
proof -
  have "A \<noteq> X" "A \<noteq> Y" "X \<noteq> Y" using assms by auto
  then show ?thesis using assms by (simp add: getModuleList_def)
qed

theorem getModuleList_order_witness:
  "getModuleList (Suc (Suc (Suc 0))) diamond_graph 0 = Some [2, 1, 0]"
proof -
  have a: "imports_list (mods diamond_graph 0) = [1, 2]"
    and x: "imports_list (mods diamond_graph 1) = [2]"
    and y: "imports_list (mods diamond_graph 2) = []"
    by (simp_all add: diamond_graph_def blank_def)
  show ?thesis using getModuleList_order [OF a x y] .
qed

text \<open>
  Claim C6. When A imports B and B imports A (two different modules),
  \<^verbatim>\<open>getModuleList\<close> on A returns, for every bound of at least three on the depth of the
  recursion, and the list is B then A: each of the two once, B before A.
\<close>

theorem getModuleList_cycle:
  assumes "imports_list (mods s A) = [B]"
    and "imports_list (mods s B) = [A]"
    and "A \<noteq> B"
  shows "getModuleList (Suc (Suc (Suc n))) s A = Some [B, A]"
  using assms by (simp add: getModuleList_def)

theorem getModuleList_cycle_witness:
  "getModuleList (Suc (Suc (Suc 0))) cyclic_graph 0 = Some [1, 0]"
proof -
  have a: "imports_list (mods cyclic_graph 0) = [1]"
    and b: "imports_list (mods cyclic_graph 1) = [0]"
    and d: "(0::mid) \<noteq> 1"
    by (simp_all add: cyclic_graph_def blank_def)
  show ?thesis using getModuleList_cycle [OF a b d] .
qed

section \<open>Resolution\<close>

subsection \<open>What a run of resolve preserves\<close>

lemma for_requires_preserves:
  assumes inv: "\<And>s cb arg r s'. P s \<Longrightarrow> invoke s t cb arg = (r, s') \<Longrightarrow> P s'"
    and rec: "\<And>s x r s'. P s \<Longrightarrow> rec s x = Some (r, s') \<Longrightarrow> P s'"
  shows "P s \<Longrightarrow> for_requires rec s t reqs = Some (r, s') \<Longrightarrow> P s'"
proof (induction reqs arbitrary: s)
  case Nil
  then show ?case by simp
next
  case (Cons req reqs)
  show ?case
  proof (cases "truthy (fst req)")
    case True
    let ?m = "packer (mods s t) (the (fst req))"
    from Cons.prems(2) True obtain r1 s1 where r1: "rec s ?m = Some (r1, s1)"
      by (cases "rec s ?m") (auto simp: Let_def)
    have p1: "P s1" using rec [OF Cons.prems(1) r1] .
    show ?thesis
    proof (cases r1)
      case (Inl e)
      with Cons.prems(2) True r1 have "s' = s1" by (simp add: Let_def)
      with p1 show ?thesis by simp
    next
      case (Inr u)
      obtain r2 s2 where r2: "invoke s1 t (snd req) (Some ?m) = (r2, s2)"
        using prod.exhaust by blast
      have p2: "P s2" using inv [OF p1 r2] .
      show ?thesis
      proof (cases r2)
        case (Inl e)
        with Cons.prems(2) True r1 Inr r2 have "s' = s2" by (simp add: Let_def)
        with p2 show ?thesis by simp
      next
        case Inr2: (Inr u')
        with Cons.prems(2) True r1 Inr r2 have "for_requires rec s2 t reqs = Some (r, s')"
          by (simp add: Let_def)
        with p2 show ?thesis by (rule Cons.IH)
      qed
    qed
  next
    case False
    obtain r2 s2 where r2: "invoke s t (snd req) None = (r2, s2)"
      using prod.exhaust by blast
    have p2: "P s2" using inv [OF Cons.prems(1) r2] .
    show ?thesis
    proof (cases r2)
      case (Inl e)
      with Cons.prems(2) False r2 have "s' = s2" by simp
      with p2 show ?thesis by simp
    next
      case (Inr u')
      with Cons.prems(2) False r2 have "for_requires rec s2 t reqs = Some (r, s')" by simp
      with p2 show ?thesis by (rule Cons.IH)
    qed
  qed
qed

lemma resolve_unfold:
  assumes "\<not> resolved (mods s t)" and "resolve (Suc n) s t = Some (r, s')"
  shows "(requires (mods s t) = None \<and> r = Inl TypeError \<and>
          s' = upd s t (\<lambda>m. m\<lparr>resolved := True\<rparr>)) \<or>
         (\<exists>reqs r2 s2. requires (mods s t) = Some reqs \<and>
            for_requires (resolve n) (upd s t (\<lambda>m. m\<lparr>resolved := True\<rparr>)) t reqs = Some (r2, s2) \<and>
            ((\<exists>e. r2 = Inl e \<and> r = Inl e \<and> s' = s2) \<or>
             (r2 = Inr () \<and> r = Inr () \<and>
              s' = upd s2 t (\<lambda>m. m\<lparr>requires := None, file_ref := None\<rparr>))))"
proof (cases "requires (mods s t)")
  case None
  with assms show ?thesis by (simp add: Let_def mods_upd)
next
  case (Some reqs)
  let ?s1 = "upd s t (\<lambda>m. m\<lparr>resolved := True\<rparr>)"
  have rq: "requires (mods ?s1 t) = Some reqs" using Some by (simp add: mods_upd)
  from assms rq obtain r2 s2 where l: "for_requires (resolve n) ?s1 t reqs = Some (r2, s2)"
    by (cases "for_requires (resolve n) ?s1 t reqs") (auto simp: Let_def)
  show ?thesis
  proof (cases r2)
    case (Inl e)
    with assms rq l have "r = Inl e \<and> s' = s2" by (auto simp: Let_def)
    with Some l Inl show ?thesis by simp
  next
    case (Inr u)
    with assms rq l have "r = Inr () \<and> s' = upd s2 t (\<lambda>m. m\<lparr>requires := None, file_ref := None\<rparr>)"
      by (auto simp: Let_def)
    with Some l Inr show ?thesis by simp
  qed
qed

lemma resolve_preserves:
  assumes inv: "\<And>s t cb arg r s'. P s \<Longrightarrow> invoke s t cb arg = (r, s') \<Longrightarrow> P s'"
    and mark: "\<And>s t. P s \<Longrightarrow> P (upd s t (\<lambda>m. m\<lparr>resolved := True\<rparr>))"
    and del: "\<And>s t. P s \<Longrightarrow> P (upd s t (\<lambda>m. m\<lparr>requires := None, file_ref := None\<rparr>))"
  shows "P s \<Longrightarrow> resolve n s t = Some (r, s') \<Longrightarrow> P s'"
proof (induction n arbitrary: s t r s')
  case 0
  then show ?case by simp
next
  case (Suc n)
  show ?case
  proof (cases "resolved (mods s t)")
    case True
    with Suc.prems show ?thesis by simp
  next
    case False
    let ?s1 = "upd s t (\<lambda>m. m\<lparr>resolved := True\<rparr>)"
    have p1: "P ?s1" using Suc.prems(1) by (rule mark)
    from resolve_unfold [OF False Suc.prems(2)] show ?thesis
    proof (elim disjE conjE exE)
      assume "s' = ?s1"
      with p1 show ?thesis by simp
    next
      fix reqs r2 s2 e
      assume l: "for_requires (resolve n) ?s1 t reqs = Some (r2, s2)" and "s' = s2"
      have "P s2" using for_requires_preserves [of P t "resolve n", OF inv Suc.IH p1 l] .
      with \<open>s' = s2\<close> show ?thesis by simp
    next
      fix reqs r2 s2
      assume l: "for_requires (resolve n) ?s1 t reqs = Some (r2, s2)"
        and s': "s' = upd s2 t (\<lambda>m. m\<lparr>requires := None, file_ref := None\<rparr>)"
      have "P s2" using for_requires_preserves [of P t "resolve n", OF inv Suc.IH p1 l] .
      then show ?thesis unfolding s' by (rule del)
    qed
  qed
qed

subsection \<open>Fields that a run of resolve leaves alone\<close>

lemma grows_refl: "grows s s"
  by (simp add: grows_def)

lemma grows_trans: "grows a b \<Longrightarrow> grows b c \<Longrightarrow> grows a c"
  unfolding grows_def by (metis prefix_order.trans)

lemma grows_file_dep: "file_dep s t p tag = (r, s') \<Longrightarrow> grows s s'"
  by (auto simp: file_dep_def grows_def mods_upd calls_upd split: option.splits)

lemma grows_import:
  assumes "import s t m = (r, s')"
  shows "grows s s'"
proof -
  let ?s1 = "upd s t (\<lambda>m'. m'\<lparr>imports_list := imports_list m' @ [m]\<rparr>)"
  have g1: "grows s ?s1" by (simp add: grows_def mods_upd calls_upd)
  show ?thesis
  proof (cases "m = t")
    case True
    with assms show ?thesis by (simp add: import_def grows_refl)
  next
    case False
    show ?thesis
    proof (cases "truthy (srcPath (mods ?s1 m))")
      case True
      with assms False
      have "file_dep ?s1 t (the (srcPath (mods ?s1 m))) ''WebPack:import'' = (r, s')"
        by (simp add: import_def Let_def)
      then have "grows ?s1 s'" by (rule grows_file_dep)
      with g1 show ?thesis by (rule grows_trans)
    next
      case unrecorded: False
      with assms False have "s' = ?s1" by (simp add: import_def Let_def)
      with g1 show ?thesis by simp
    qed
  qed
qed

lemma grows_exclude:
  assumes "exclude s t m = (r, s')"
  shows "grows s s'"
proof -
  let ?s1 = "upd s t (\<lambda>m'. m'\<lparr>excludes_list := excludes_list m' @ [m]\<rparr>)"
  have g1: "grows s ?s1" by (simp add: grows_def mods_upd calls_upd)
  show ?thesis
  proof (cases "m = t")
    case True
    with assms show ?thesis by (simp add: exclude_def grows_refl)
  next
    case False
    show ?thesis
    proof (cases "truthy (srcPath (mods ?s1 m))")
      case True
      with assms False
      have "file_dep ?s1 t (the (srcPath (mods ?s1 m))) ''WebPack:exclude'' = (r, s')"
        by (simp add: exclude_def Let_def)
      then have "grows ?s1 s'" by (rule grows_file_dep)
      with g1 show ?thesis by (rule grows_trans)
    next
      case unrecorded: False
      with assms False have "s' = ?s1" by (simp add: exclude_def Let_def)
      with g1 show ?thesis by simp
    qed
  qed
qed

lemma invoke_null: "invoke s t cb None = (Inr (), s\<lparr>calls := calls s @ [(t, cb, None)]\<rparr>)"
  by (simp add: invoke_def)

lemma grows_invoke:
  assumes "invoke s t cb arg = (r, s')"
  shows "grows s s'"
proof -
  let ?s1 = "s\<lparr>calls := calls s @ [(t, cb, arg)]\<rparr>"
  have g1: "grows s ?s1" by (simp add: grows_def)
  show ?thesis
  proof (cases arg)
    case None
    with assms have "s' = ?s1" by (simp add: invoke_def)
    with g1 show ?thesis by simp
  next
    case (Some m)
    show ?thesis
    proof (cases cb)
      case ImportCallback
      with assms Some have "import ?s1 t m = (r, s')" by (simp add: invoke_def)
      then have "grows ?s1 s'" by (rule grows_import)
      with g1 show ?thesis by (rule grows_trans)
    next
      case ExcludeCallback
      with assms Some have "exclude ?s1 t m = (r, s')" by (simp add: invoke_def)
      then have "grows ?s1 s'" by (rule grows_exclude)
      with g1 show ?thesis by (rule grows_trans)
    qed
  qed
qed

lemma grows_mark: "grows s (upd s t (\<lambda>m. m\<lparr>resolved := True\<rparr>))"
  by (simp add: grows_def mods_upd calls_upd)

lemma grows_delete: "grows s (upd s t (\<lambda>m. m\<lparr>requires := None, file_ref := None\<rparr>))"
  by (simp add: grows_def mods_upd calls_upd)

lemma grows_resolve:
  assumes "resolve n s t = Some (r, s')"
  shows "grows s s'"
proof (rule resolve_preserves [of "grows s", OF _ _ _ grows_refl assms])
  show "grows s b" if "grows s a" "invoke a t' cb arg = (r', b)" for a t' cb arg r' b
    using that(1) grows_invoke [OF that(2)] by (rule grows_trans)
  show "grows s (upd a t' (\<lambda>m. m\<lparr>resolved := True\<rparr>))" if "grows s a" for a t'
    using that grows_mark by (rule grows_trans)
  show "grows s (upd a t' (\<lambda>m. m\<lparr>requires := None, file_ref := None\<rparr>))" if "grows s a" for a t'
    using that grows_delete by (rule grows_trans)
qed

lemma grows_for_requires:
  assumes "for_requires (resolve n) s t reqs = Some (r, s')"
  shows "grows s s'"
proof (rule for_requires_preserves [of "grows s", OF _ _ grows_refl assms])
  show "grows s b" if "grows s a" "invoke a t cb arg = (r', b)" for a cb arg r' b
    using that(1) grows_invoke [OF that(2)] by (rule grows_trans)
  show "grows s b" if "grows s a" "resolve n a x = Some (r', b)" for a x r' b
    using that(1) grows_resolve [OF that(2)] by (rule grows_trans)
qed

lemma resolve_sets_resolved:
  assumes "resolve n s t = Some (r, s')"
  shows "resolved (mods s' t)"
proof (cases n)
  case 0
  with assms show ?thesis by simp
next
  case (Suc k)
  show ?thesis
  proof (cases "resolved (mods s t)")
    case True
    with assms Suc show ?thesis by simp
  next
    case False
    let ?s1 = "upd s t (\<lambda>m. m\<lparr>resolved := True\<rparr>)"
    have r1: "resolved (mods ?s1 t)" by (simp add: mods_upd)
    have kept: "resolved (mods s2 t)" if "for_requires (resolve k) ?s1 t reqs = Some (r2, s2)"
      for reqs r2 s2
      using grows_for_requires [OF that] r1 by (simp add: grows_def)
    from resolve_unfold [OF False assms [unfolded Suc]] show ?thesis
      using r1 kept by (auto simp: mods_upd)
  qed
qed

lemma for_requires_null_called:
  assumes "for_requires (resolve n) s t reqs = Some (Inr (), s')" and "(None, cb) \<in> set reqs"
  shows "(t, cb, None) \<in> set (calls s')"
  using assms
proof (induction reqs arbitrary: s)
  case Nil
  then show ?case by simp
next
  case (Cons req reqs)
  show ?case
  proof (cases "truthy (fst req)")
    case True
    then have "req \<noteq> (None, cb)" by (auto simp: truthy_def)
    with Cons.prems have mem: "(None, cb) \<in> set reqs" by auto
    from Cons.prems(1) True obtain s2 where "for_requires (resolve n) s2 t reqs = Some (Inr (), s')"
      by (auto simp: Let_def split: option.splits sum.splits prod.splits)
    then show ?thesis using mem by (rule Cons.IH)
  next
    case False
    let ?s2 = "s\<lparr>calls := calls s @ [(t, snd req, None)]\<rparr>"
    from Cons.prems(1) False have l: "for_requires (resolve n) ?s2 t reqs = Some (Inr (), s')"
      by (simp add: invoke_null)
    show ?thesis
    proof (cases "req = (None, cb)")
      case True
      have "grows ?s2 s'" using l by (rule grows_for_requires)
      then have "prefix (calls ?s2) (calls s')" by (simp add: grows_def)
      then have "set (calls ?s2) \<subseteq> set (calls s')" by (rule set_mono_prefix)
      with True show ?thesis by auto
    next
      case other: False
      with Cons.prems have "(None, cb) \<in> set reqs" by auto
      with l show ?thesis by (rule Cons.IH)
    qed
  qed
qed

subsection \<open>Resolve returns\<close>

lemma file_dep_ok:
  assumes "file_ref (mods s t) \<noteq> None"
  shows "\<exists>s'. file_dep s t p tag = (Inr (), s') \<and> file_ref (mods s' t) \<noteq> None \<and>
              resolved (mods s' t) = resolved (mods s t) \<and>
              (\<forall>y. y \<noteq> t \<longrightarrow> mods s' y = mods s y)"
  using assms by (auto simp: file_dep_def mods_upd)

lemma import_ok:
  assumes "file_ref (mods s t) \<noteq> None"
  shows "\<exists>s'. import s t m = (Inr (), s') \<and> file_ref (mods s' t) \<noteq> None \<and>
              resolved (mods s' t) = resolved (mods s t) \<and>
              (\<forall>y. y \<noteq> t \<longrightarrow> mods s' y = mods s y)"
proof (cases "m = t")
  case True
  with assms show ?thesis by (simp add: import_def)
next
  case False
  define s1 where "s1 = upd s t (\<lambda>m'. m'\<lparr>imports_list := imports_list m' @ [m]\<rparr>)"
  have f1: "file_ref (mods s1 t) \<noteq> None" and r1: "resolved (mods s1 t) = resolved (mods s t)"
    and o1: "\<And>y. y \<noteq> t \<Longrightarrow> mods s1 y = mods s y"
    using assms by (simp_all add: s1_def mods_upd)
  have unf: "import s t m =
      (if truthy (srcPath (mods s1 m)) then
         file_dep s1 t (the (srcPath (mods s1 m))) ''WebPack:import''
       else (Inr (), s1))"
    using False by (simp add: import_def Let_def s1_def)
  show ?thesis
  proof (cases "truthy (srcPath (mods s1 m))")
    case True
    from file_dep_ok [OF f1, of "the (srcPath (mods s1 m))" "''WebPack:import''"]
    obtain s' where "file_dep s1 t (the (srcPath (mods s1 m))) ''WebPack:import'' = (Inr (), s')"
      and "file_ref (mods s' t) \<noteq> None" and "resolved (mods s' t) = resolved (mods s1 t)"
      and "\<forall>y. y \<noteq> t \<longrightarrow> mods s' y = mods s1 y" by blast
    with unf True r1 o1 show ?thesis by auto
  next
    case unrecorded: False
    with unf f1 r1 o1 show ?thesis by auto
  qed
qed

lemma exclude_ok:
  assumes "file_ref (mods s t) \<noteq> None"
  shows "\<exists>s'. exclude s t m = (Inr (), s') \<and> file_ref (mods s' t) \<noteq> None \<and>
              resolved (mods s' t) = resolved (mods s t) \<and>
              (\<forall>y. y \<noteq> t \<longrightarrow> mods s' y = mods s y)"
proof (cases "m = t")
  case True
  with assms show ?thesis by (simp add: exclude_def)
next
  case False
  define s1 where "s1 = upd s t (\<lambda>m'. m'\<lparr>excludes_list := excludes_list m' @ [m]\<rparr>)"
  have f1: "file_ref (mods s1 t) \<noteq> None" and r1: "resolved (mods s1 t) = resolved (mods s t)"
    and o1: "\<And>y. y \<noteq> t \<Longrightarrow> mods s1 y = mods s y"
    using assms by (simp_all add: s1_def mods_upd)
  have unf: "exclude s t m =
      (if truthy (srcPath (mods s1 m)) then
         file_dep s1 t (the (srcPath (mods s1 m))) ''WebPack:exclude''
       else (Inr (), s1))"
    using False by (simp add: exclude_def Let_def s1_def)
  show ?thesis
  proof (cases "truthy (srcPath (mods s1 m))")
    case True
    from file_dep_ok [OF f1, of "the (srcPath (mods s1 m))" "''WebPack:exclude''"]
    obtain s' where "file_dep s1 t (the (srcPath (mods s1 m))) ''WebPack:exclude'' = (Inr (), s')"
      and "file_ref (mods s' t) \<noteq> None" and "resolved (mods s' t) = resolved (mods s1 t)"
      and "\<forall>y. y \<noteq> t \<longrightarrow> mods s' y = mods s1 y" by blast
    with unf True r1 o1 show ?thesis by auto
  next
    case unrecorded: False
    with unf f1 r1 o1 show ?thesis by auto
  qed
qed

lemma invoke_ok:
  assumes "file_ref (mods s t) \<noteq> None"
  shows "\<exists>s'. invoke s t cb arg = (Inr (), s') \<and> file_ref (mods s' t) \<noteq> None \<and>
              resolved (mods s' t) = resolved (mods s t) \<and>
              (\<forall>y. y \<noteq> t \<longrightarrow> mods s' y = mods s y)"
proof -
  define s1 where "s1 = s\<lparr>calls := calls s @ [(t, cb, arg)]\<rparr>"
  have m1: "mods s1 = mods s" by (simp add: s1_def)
  then have f1: "file_ref (mods s1 t) \<noteq> None" using assms by simp
  show ?thesis
  proof (cases arg)
    case None
    then have "invoke s t cb arg = (Inr (), s1)" by (simp add: invoke_def s1_def)
    with m1 assms show ?thesis by simp
  next
    case (Some m)
    show ?thesis
    proof (cases cb)
      case ImportCallback
      with Some have "invoke s t cb arg = import s1 t m" by (simp add: invoke_def s1_def)
      with import_ok [OF f1, of m] m1 show ?thesis by simp
    next
      case ExcludeCallback
      with Some have "invoke s t cb arg = exclude s1 t m" by (simp add: invoke_def s1_def)
      with exclude_ok [OF f1, of m] m1 show ?thesis by simp
    qed
  qed
qed

lemma invoke_others:
  assumes "invoke s t cb arg = (r, s')" and "y \<noteq> t"
  shows "mods s' y = mods s y"
proof -
  have fd: "mods b y = mods a y" if "file_dep a t p tag = (r', b)" for a b p tag r'
    using that assms(2) by (auto simp: file_dep_def mods_upd split: option.splits)
  have im: "mods b y = mods a y" if "import a t m = (r', b)" for a b m r'
    using that assms(2) fd
    by (auto simp: import_def Let_def mods_upd split: if_splits)
  have ex: "mods b y = mods a y" if "exclude a t m = (r', b)" for a b m r'
    using that assms(2) fd
    by (auto simp: exclude_def Let_def mods_upd split: if_splits)
  show ?thesis
  proof (cases arg)
    case None
    with assms(1) show ?thesis by (auto simp: invoke_def)
  next
    case (Some m)
    then show ?thesis using assms(1) im ex
      by (cases cb) (auto simp: invoke_def)
  qed
qed

lemma settles_refl: "settles s s"
  by (simp add: settles_def)

lemma settles_resolve:
  "resolve n s t = Some (r, s') \<Longrightarrow> settles s s'"
proof (induction n arbitrary: s t r s')
  case 0
  then show ?case by simp
next
  case (Suc n)
  show ?case
  proof (cases "resolved (mods s t)")
    case True
    with Suc.prems show ?thesis by (simp add: settles_refl)
  next
    case False
    define P where "P a \<longleftrightarrow>
      (\<forall>y. y \<noteq> t \<longrightarrow> mods a y = mods s y \<or> (\<not> resolved (mods s y) \<and> resolved (mods a y)))"
      for a :: state
    let ?s1 = "upd s t (\<lambda>m. m\<lparr>resolved := True\<rparr>)"
    have p1: "P ?s1" by (simp add: P_def mods_upd)
    have inv: "P b" if "P a" "invoke a t cb arg = (r', b)" for a cb arg r' b
      using that(1) invoke_others [OF that(2)] by (simp add: P_def)
    have rec: "P b" if pa: "P a" and run: "resolve n a x = Some (r', b)" for a x r' b
    proof -
      have st: "settles a b" using run by (rule Suc.IH)
      show ?thesis unfolding P_def
      proof (intro allI impI)
        fix y assume "y \<noteq> t"
        with pa have a: "mods a y = mods s y \<or> (\<not> resolved (mods s y) \<and> resolved (mods a y))"
          by (simp add: P_def)
        from st have b: "mods b y = mods a y \<or> (\<not> resolved (mods a y) \<and> resolved (mods b y))"
          by (simp add: settles_def)
        from a b show "mods b y = mods s y \<or> (\<not> resolved (mods s y) \<and> resolved (mods b y))"
          by auto
      qed
    qed
    have loop: "P s2" if "for_requires (resolve n) ?s1 t reqs = Some (r2, s2)" for reqs r2 s2
      using for_requires_preserves [of P t "resolve n", OF inv rec p1 that] .
    have del: "P (upd a t (\<lambda>m. m\<lparr>requires := None, file_ref := None\<rparr>))" if "P a" for a
      using that by (simp add: P_def mods_upd)
    have "P s'"
      using resolve_unfold [OF False Suc.prems]
    proof (elim disjE conjE exE)
      assume "s' = ?s1"
      with p1 show ?thesis by simp
    next
      fix reqs r2 s2 e
      assume "for_requires (resolve n) ?s1 t reqs = Some (r2, s2)" and "s' = s2"
      with loop show ?thesis by simp
    next
      fix reqs r2 s2
      assume l: "for_requires (resolve n) ?s1 t reqs = Some (r2, s2)"
        and s': "s' = upd s2 t (\<lambda>m. m\<lparr>requires := None, file_ref := None\<rparr>)"
      show ?thesis unfolding s' using loop [OF l] by (rule del)
    qed
    then have others: "y \<noteq> t \<Longrightarrow>
        mods s' y = mods s y \<or> (\<not> resolved (mods s y) \<and> resolved (mods s' y))" for y
      by (simp add: P_def)
    have here: "resolved (mods s' t)" using Suc.prems by (rule resolve_sets_resolved)
    show ?thesis unfolding settles_def
    proof
      fix y
      show "mods s' y = mods s y \<or> (\<not> resolved (mods s y) \<and> resolved (mods s' y))"
      proof (cases "y = t")
        case True
        with False here show ?thesis by simp
      next
        case other: False
        then show ?thesis by (rule others)
      qed
    qed
  qed
qed

lemma settles_unresolved:
  assumes "settles a b"
  shows "unresolved b \<subseteq> unresolved a"
  using assms unfolding settles_def unresolved_def by auto metis

lemma settles_intact:
  assumes "settles a b" and "unresolved_intact a"
  shows "unresolved_intact b"
  unfolding unresolved_intact_def
proof (intro allI impI)
  fix x assume u: "\<not> resolved (mods b x)"
  with assms(1) have "mods b x = mods a x" by (auto simp: settles_def)
  with u assms(2) show "requires (mods b x) \<noteq> None \<and> file_ref (mods b x) \<noteq> None"
    by (simp add: unresolved_intact_def)
qed

lemma settles_resolved:
  assumes "settles a b" and "resolved (mods a t)"
  shows "mods b t = mods a t"
  using assms by (auto simp: settles_def)

lemma for_requires_total:
  assumes rec: "\<And>a x. J a \<Longrightarrow> \<exists>b. rec a x = Some (Inr (), b) \<and> J b"
    and inv: "\<And>a cb arg. J a \<Longrightarrow> \<exists>b. invoke a t cb arg = (Inr (), b) \<and> J b"
  shows "J s \<Longrightarrow> \<exists>s'. for_requires rec s t reqs = Some (Inr (), s')"
proof (induction reqs arbitrary: s)
  case Nil
  then show ?case by simp
next
  case (Cons req reqs)
  show ?case
  proof (cases "truthy (fst req)")
    case True
    let ?m = "packer (mods s t) (the (fst req))"
    from rec [OF Cons.prems, of ?m] obtain s1 where r1: "rec s ?m = Some (Inr (), s1)" and j1: "J s1"
      by blast
    from inv [OF j1, of "snd req" "Some ?m"]
    obtain s2 where r2: "invoke s1 t (snd req) (Some ?m) = (Inr (), s2)" and j2: "J s2"
      by blast
    from Cons.IH [OF j2] obtain s' where "for_requires rec s2 t reqs = Some (Inr (), s')" ..
    with True r1 r2 have "for_requires rec s t (req # reqs) = Some (Inr (), s')"
      by (simp add: Let_def)
    then show ?thesis ..
  next
    case False
    from inv [OF Cons.prems, of "snd req" None]
    obtain s2 where r2: "invoke s t (snd req) None = (Inr (), s2)" and j2: "J s2"
      by blast
    from Cons.IH [OF j2] obtain s' where "for_requires rec s2 t reqs = Some (Inr (), s')" ..
    with False r2 have "for_requires rec s t (req # reqs) = Some (Inr (), s')" by simp
    then show ?thesis ..
  qed
qed

lemma resolve_total:
  "unresolved_intact s \<Longrightarrow> finite (unresolved s) \<Longrightarrow> card (unresolved s) < n \<Longrightarrow>
   \<exists>s'. resolve n s t = Some (Inr (), s')"
proof (induction n arbitrary: s t)
  case 0
  then show ?case by simp
next
  case (Suc n)
  show ?case
  proof (cases "resolved (mods s t)")
    case True
    then show ?thesis by simp
  next
    case False
    define J where "J a \<longleftrightarrow> unresolved_intact a \<and> finite (unresolved a) \<and>
      card (unresolved a) < n \<and> file_ref (mods a t) \<noteq> None \<and> resolved (mods a t)"
      for a :: state
    define s1 where "s1 = upd s t (\<lambda>m. m\<lparr>resolved := True\<rparr>)"
    from False Suc.prems(1) obtain reqs where rq: "requires (mods s t) = Some reqs"
      and fl: "file_ref (mods s t) \<noteq> None"
      by (auto simp: unresolved_intact_def)
    have u1: "unresolved s1 = unresolved s - {t}"
      by (auto simp: unresolved_def s1_def mods_upd)
    have "t \<in> unresolved s" using False by (simp add: unresolved_def)
    then have "card (unresolved s - {t}) < card (unresolved s)"
      using Suc.prems(2) by (rule card_Diff1_less [rotated])
    then have c1: "card (unresolved s1) < n" using u1 Suc.prems(3) by simp
    have i1: "unresolved_intact s1"
      using Suc.prems(1) by (simp add: unresolved_intact_def s1_def mods_upd)
    have j1: "J s1"
      using i1 c1 u1 Suc.prems(2) fl by (simp add: J_def) (simp add: s1_def mods_upd)
    have rec: "\<exists>b. resolve n a x = Some (Inr (), b) \<and> J b" if "J a" for a x
    proof -
      from that have ja: "unresolved_intact a" "finite (unresolved a)" "card (unresolved a) < n"
        "file_ref (mods a t) \<noteq> None" "resolved (mods a t)"
        by (simp_all add: J_def)
      from Suc.IH [OF ja(1) ja(2) ja(3), of x] obtain b where run: "resolve n a x = Some (Inr (), b)" ..
      then have st: "settles a b" by (rule settles_resolve)
      have sub: "unresolved b \<subseteq> unresolved a" using st by (rule settles_unresolved)
      then have "finite (unresolved b)" using ja(2) by (rule finite_subset)
      moreover have "card (unresolved b) \<le> card (unresolved a)" using sub ja(2) by (simp add: card_mono)
      moreover have "unresolved_intact b" using st ja(1) by (rule settles_intact)
      moreover have "mods b t = mods a t" using st ja(5) by (rule settles_resolved)
      ultimately have "J b" using ja by (simp add: J_def)
      with run show ?thesis by blast
    qed
    have inv: "\<exists>b. invoke a t cb arg = (Inr (), b) \<and> J b" if "J a" for a cb arg
    proof -
      from that have ja: "unresolved_intact a" "finite (unresolved a)" "card (unresolved a) < n"
        "file_ref (mods a t) \<noteq> None" "resolved (mods a t)"
        by (simp_all add: J_def)
      from invoke_ok [OF ja(4), of cb arg] obtain b where run: "invoke a t cb arg = (Inr (), b)"
        and fb: "file_ref (mods b t) \<noteq> None" and rb: "resolved (mods b t) = resolved (mods a t)"
        and ob: "\<forall>y. y \<noteq> t \<longrightarrow> mods b y = mods a y" by blast
      have res: "resolved (mods b y) = resolved (mods a y)" for y
        using rb ob by (cases "y = t") simp_all
      then have ub: "unresolved b = unresolved a" by (simp add: unresolved_def)
      have "unresolved_intact b"
        unfolding unresolved_intact_def
      proof (intro allI impI)
        fix x assume u: "\<not> resolved (mods b x)"
        with rb ja(5) have "x \<noteq> t" by auto
        with ob have "mods b x = mods a x" by simp
        with u ja(1) show "requires (mods b x) \<noteq> None \<and> file_ref (mods b x) \<noteq> None"
          by (simp add: unresolved_intact_def)
      qed
      with ub fb rb ja have "J b" by (simp add: J_def)
      with run show ?thesis by blast
    qed
    from for_requires_total [of J "resolve n" t, OF rec inv j1]
    obtain s2 where "for_requires (resolve n) s1 t reqs = Some (Inr (), s2)" by blast
    moreover have "requires (mods s1 t) = Some reqs" using rq by (simp add: s1_def mods_upd)
    ultimately have "resolve (Suc n) s t
        = Some (Inr (), upd s2 t (\<lambda>m. m\<lparr>requires := None, file_ref := None\<rparr>))"
      using False by (simp add: s1_def Let_def)
    then show ?thesis ..
  qed
qed

lemma resolve_pending_graph:
  "resolve (Suc (Suc 0)) pending_graph 0 = Some (Inr (), resolved_graph)"
  by (simp add: pending_graph_def resolved_graph_def blank_def settled_def upd_def truthy_def
      invoke_def import_def exclude_def file_dep_def Let_def fun_upd_twist)

subsection \<open>The claims about resolve\<close>

text \<open>
  Claim C4. Once a call of \<^verbatim>\<open>resolve\<close> on a module has ended (here with any outcome,
  a normal return included) in the state \<open>s'\<close>, a second call on the same module
  returns at its first test, for every bound on the depth: its result state is \<open>s'\<close>
  itself, so the lists of includes, imports and excludes of every module are the same and
  \<open>calls\<close> has gained no callback invocation.
\<close>

theorem resolve_idempotent:
  "resolve n s m = Some (r, s') \<Longrightarrow> resolve (Suc k) s' m = Some (Inr (), s')"
  using resolve_sets_resolved [of n s m r s'] by simp

theorem resolve_idempotent_witness:
  "resolve (Suc (Suc 0)) pending_graph 0 = Some (Inr (), resolved_graph) \<and>
   resolve (Suc 0) resolved_graph 0 = Some (Inr (), resolved_graph)"
  using resolve_idempotent [OF resolve_pending_graph, of 0] resolve_pending_graph by simp

text \<open>
  Claim C10. Let \<^verbatim>\<open>resolve\<close> be called on an unresolved module. Whenever the call
  returns, the module has neither \<open>requires\<close> nor \<open>file_ref\<close>, its flag
  \<open>resolved\<close> is true, its fields \<open>packer\<close>, \<open>options\<close>, \<open>srcPath\<close>,
  \<open>destPath\<close> and its list of includes are as before, and its lists of imports and
  excludes are the former lists with the entries that the callbacks have appended. And the
  call does return: from every state with finitely many unresolved modules, each of them
  still with its \<open>requires\<close> and its \<open>file_ref\<close>, it returns normally for every bound
  on the depth above the number of unresolved modules.
\<close>

theorem resolve_sheds_state:
  assumes "\<not> resolved (mods s m)"
  shows "(\<forall>n s'. resolve n s m = Some (Inr (), s') \<longrightarrow>
           requires (mods s' m) = None \<and> file_ref (mods s' m) = None \<and> resolved (mods s' m) \<and>
           packer (mods s' m) = packer (mods s m) \<and> options (mods s' m) = options (mods s m) \<and>
           srcPath (mods s' m) = srcPath (mods s m) \<and> destPath (mods s' m) = destPath (mods s m) \<and>
           includes_list (mods s' m) = includes_list (mods s m) \<and>
           prefix (imports_list (mods s m)) (imports_list (mods s' m)) \<and>
           prefix (excludes_list (mods s m)) (excludes_list (mods s' m))) \<and>
         (finite (unresolved s) \<and> unresolved_intact s \<longrightarrow>
           (\<forall>n>card (unresolved s). \<exists>s'. resolve n s m = Some (Inr (), s')))"
proof -
  have shed: "requires (mods s' m) = None \<and> file_ref (mods s' m) = None \<and> resolved (mods s' m) \<and>
           packer (mods s' m) = packer (mods s m) \<and> options (mods s' m) = options (mods s m) \<and>
           srcPath (mods s' m) = srcPath (mods s m) \<and> destPath (mods s' m) = destPath (mods s m) \<and>
           includes_list (mods s' m) = includes_list (mods s m) \<and>
           prefix (imports_list (mods s m)) (imports_list (mods s' m)) \<and>
           prefix (excludes_list (mods s m)) (excludes_list (mods s' m))"
    if run: "resolve n s m = Some (Inr (), s')" for n s'
  proof -
    obtain k where n: "n = Suc k" using run by (cases n) simp_all
    from resolve_unfold [OF assms run [unfolded n]]
    obtain s2 where "s' = upd s2 m (\<lambda>m. m\<lparr>requires := None, file_ref := None\<rparr>)" by auto
    then have "requires (mods s' m) = None \<and> file_ref (mods s' m) = None"
      by (simp add: mods_upd)
    then show ?thesis
      using resolve_sets_resolved [OF run] grows_resolve [OF run] by (simp add: grows_def)
  qed
  have returns: "\<exists>s'. resolve n s m = Some (Inr (), s')"
    if "finite (unresolved s) \<and> unresolved_intact s" and "card (unresolved s) < n" for n
    using that by (intro resolve_total) simp_all
  from shed returns show ?thesis by blast
qed

theorem resolve_sheds_state_witness:
  "\<not> resolved (mods pending_graph 0) \<and>
   finite (unresolved pending_graph) \<and> unresolved_intact pending_graph \<and>
   resolve (Suc (Suc 0)) pending_graph 0 = Some (Inr (), resolved_graph) \<and>
   requires (mods resolved_graph 0) = None \<and> file_ref (mods resolved_graph 0) = None \<and>
   resolved (mods resolved_graph 0) \<and>
   prefix (imports_list (mods pending_graph 0)) (imports_list (mods resolved_graph 0)) \<and>
   card (unresolved pending_graph) = 2 \<and>
   (\<exists>s'. resolve 3 pending_graph 0 = Some (Inr (), s'))"
proof -
  have u: "\<not> resolved (mods pending_graph 0)" by (simp add: pending_graph_def blank_def)
  have "unresolved pending_graph = {0, 1}"
    by (auto simp: unresolved_def pending_graph_def blank_def settled_def split: if_splits)
  then have f: "finite (unresolved pending_graph)" and c: "card (unresolved pending_graph) = 2"
    by simp_all
  have i: "unresolved_intact pending_graph"
    by (simp add: unresolved_intact_def pending_graph_def blank_def settled_def)
  from resolve_sheds_state [OF u] resolve_pending_graph f i
  have "requires (mods resolved_graph 0) = None \<and> file_ref (mods resolved_graph 0) = None \<and>
        resolved (mods resolved_graph 0) \<and>
        prefix (imports_list (mods pending_graph 0)) (imports_list (mods resolved_graph 0))"
    and "\<forall>n>card (unresolved pending_graph). \<exists>s'. resolve n pending_graph 0 = Some (Inr (), s')"
    by blast+
  then show ?thesis using u f i c resolve_pending_graph by simp
qed

text \<open>
  Claim C9. On a module whose flag \<open>resolved\<close> is true, \<^verbatim>\<open>require\<close> should fail
  with the assertion and append nothing. The code does not: \<^verbatim>\<open>console.assert\<close>
  prints its line and returns, and the push of the next statement runs. On module 0 of
  \<open>resolving_graph\<close> (flag set, \<open>requires\<close> still there) the call returns normally
  and has appended the new declaration; one line is on the console.
\<close>

theorem require_appends_when_resolved:
  "resolved (mods resolving_graph 0) \<and>
   fst (require resolving_graph 0 (Some ''/c'') ImportCallback) = Inr () \<and>
   requires (mods (snd (require resolving_graph 0 (Some ''/c'') ImportCallback)) 0)
     = Some [(Some ''/b'', ImportCallback), (None, ExcludeCallback), (Some ''/c'', ImportCallback)] \<and>
   console (snd (require resolving_graph 0 (Some ''/c'') ImportCallback)) = [''Assertion failed'']"
  by (simp add: require_def requires_push_def console_assert_def resolving_graph_def
      pending_graph_def blank_def upd_def)

text \<open>
  Claim C7. A declaration without a target identity has its callback called with null:
  the call returns normally and changes nothing but the record of calls, which gains
  the entry \<open>(m, cb, None)\<close>, so no list of includes, imports or excludes of any module
  changes; the loop of \<^verbatim>\<open>resolve\<close> goes on with the next declaration from that state.
  When \<^verbatim>\<open>resolve\<close> on an unresolved module returns, every such declaration of the
  module has been called with null.
\<close>

theorem null_target_skip:
  "invoke s m cb None = (Inr (), s\<lparr>calls := calls s @ [(m, cb, None)]\<rparr>) \<and>
   mods (snd (invoke s m cb None)) = mods s \<and>
   for_requires rec s m ((None, cb) # reqs)
     = for_requires rec (s\<lparr>calls := calls s @ [(m, cb, None)]\<rparr>) m reqs \<and>
   (\<not> resolved (mods s m) \<and> requires (mods s m) = Some reqs \<and> (None, cb) \<in> set reqs \<and>
    resolve n s m = Some (Inr (), s') \<longrightarrow> (m, cb, None) \<in> set (calls s'))"
proof -
  have a: "invoke s m cb None = (Inr (), s\<lparr>calls := calls s @ [(m, cb, None)]\<rparr>)"
    by (rule invoke_null)
  have b: "for_requires rec s m ((None, cb) # reqs)
     = for_requires rec (s\<lparr>calls := calls s @ [(m, cb, None)]\<rparr>) m reqs"
    by (simp add: invoke_null truthy_def)
  have c: "(m, cb, None) \<in> set (calls s')"
    if h: "\<not> resolved (mods s m)" "requires (mods s m) = Some reqs" "(None, cb) \<in> set reqs"
       "resolve n s m = Some (Inr (), s')"
  proof -
    obtain k where n: "n = Suc k" using h(4) by (cases n) simp_all
    from resolve_unfold [OF h(1) h(4) [unfolded n]] h(2)
    obtain s2 where l: "for_requires (resolve k) (upd s m (\<lambda>m. m\<lparr>resolved := True\<rparr>)) m reqs
                         = Some (Inr (), s2)"
      and s': "s' = upd s2 m (\<lambda>m. m\<lparr>requires := None, file_ref := None\<rparr>)"
      by auto
    have "(m, cb, None) \<in> set (calls s2)"
      using l h(3) by (rule for_requires_null_called)
    then show ?thesis using s' by (simp add: calls_upd)
  qed
  show ?thesis using a b c by simp
qed

theorem null_target_skip_witness:
  "\<not> resolved (mods pending_graph 0) \<and>
   requires (mods pending_graph 0) = Some [(Some ''/b'', ImportCallback), (None, ExcludeCallback)] \<and>
   resolve (Suc (Suc 0)) pending_graph 0 = Some (Inr (), resolved_graph) \<and>
   (0, ExcludeCallback, None) \<in> set (calls resolved_graph)"
proof -
  have u: "\<not> resolved (mods pending_graph 0)" by (simp add: pending_graph_def blank_def)
  have q: "requires (mods pending_graph 0)
             = Some [(Some ''/b'', ImportCallback), (None, ExcludeCallback)]"
    by (simp add: pending_graph_def)
  have i: "(None, ExcludeCallback) \<in> set [(Some ''/b'', ImportCallback), (None, ExcludeCallback)]"
    by simp
  from null_target_skip [of pending_graph 0 ExcludeCallback
      "resolve 0" "[(Some ''/b'', ImportCallback), (None, ExcludeCallback)]" "Suc (Suc 0)" resolved_graph]
  have "(0, ExcludeCallback, None) \<in> set (calls resolved_graph)"
    using u q i resolve_pending_graph by blast
  then show ?thesis using u q resolve_pending_graph by simp
qed

section \<open>The includes relation\<close>

lemma hasInclude_loop_sound:
  assumes "\<And>x r. x \<in> set xs \<Longrightarrow> f x = Some r \<Longrightarrow> r = Q x"
  shows "hasInclude_loop f xs = Some r \<Longrightarrow> r = (\<exists>x\<in>set xs. Q x)"
  using assms
proof (induction xs)
  case Nil
  then show ?case by simp
next
  case (Cons x xs)
  from Cons.prems(1) obtain b where b: "f x = Some b" by (auto split: option.splits)
  then have bq: "b = Q x" using Cons.prems(2) by simp
  show ?case
  proof (cases b)
    case True
    with b Cons.prems(1) bq show ?thesis by simp
  next
    case False
    with b Cons.prems(1) have "hasInclude_loop f xs = Some r" by simp
    then have "r = (\<exists>x\<in>set xs. Q x)" using Cons.IH Cons.prems(2) by simp
    with False bq show ?thesis by simp
  qed
qed

lemma rtrancl_first_step: "(a, b) \<in> R\<^sup>* \<longleftrightarrow> a = b \<or> (\<exists>c. (a, c) \<in> R \<and> (c, b) \<in> R\<^sup>*)"
  by (meson converse_rtranclE converse_rtrancl_into_rtrancl rtrancl.rtrancl_refl)

lemma hasInclude_sound:
  "hasInclude n s a b = Some r \<Longrightarrow> r = ((a, b) \<in> (includes_rel s)\<^sup>*)"
proof (induction n arbitrary: a r)
  case 0
  then show ?case by simp
next
  case (Suc n)
  show ?case
  proof (cases "b = a")
    case True
    with Suc.prems show ?thesis by simp
  next
    case False
    with Suc.prems have l: "hasInclude_loop (\<lambda>inc. hasInclude n s inc b) (includes_list (mods s a)) = Some r"
      by simp
    have "r = (\<exists>x\<in>set (includes_list (mods s a)). (x, b) \<in> (includes_rel s)\<^sup>*)"
      by (rule hasInclude_loop_sound [OF _ l]) (rule Suc.IH)
    also have "\<dots> = (\<exists>c. (a, c) \<in> includes_rel s \<and> (c, b) \<in> (includes_rel s)\<^sup>*)"
      by (auto simp: includes_rel_def)
    also have "\<dots> = ((a, b) \<in> (includes_rel s)\<^sup>*)"
      using False rtrancl_first_step [of a b "includes_rel s"] by auto
    finally show ?thesis .
  qed
qed

lemma hasInclude_loop_defined:
  "(\<And>x. x \<in> set xs \<Longrightarrow> f x \<noteq> None) \<Longrightarrow> hasInclude_loop f xs \<noteq> None"
  by (induction xs) (auto split: option.splits)

lemma eventually_all:
  "(\<And>x. x \<in> set xs \<Longrightarrow> \<exists>n0::nat. \<forall>n\<ge>n0. P x n) \<Longrightarrow> \<exists>n0. \<forall>n\<ge>n0. \<forall>x\<in>set xs. P x n"
proof (induction xs)
  case Nil
  then show ?case by simp
next
  case (Cons x xs)
  from Cons.prems obtain n1 where n1: "\<forall>n\<ge>n1. P x n" by auto
  from Cons obtain n2 where n2: "\<forall>n\<ge>n2. \<forall>y\<in>set xs. P y n" by auto
  have "\<forall>n\<ge>max n1 n2. \<forall>y\<in>set (x # xs). P y n" using n1 n2 by auto
  then show ?case by blast
qed

lemma hasInclude_terminates:
  assumes fin: "finite (includes_rel s)" and acy: "acyclic (includes_rel s)"
  shows "\<exists>n0. \<forall>n\<ge>n0. hasInclude n s a b \<noteq> None"
proof -
  have "wf ((includes_rel s)\<inverse>)" using fin acy by (rule finite_acyclic_wf_converse)
  then show ?thesis
  proof (induction a rule: wf_induct_rule)
    case (less a)
    have "\<And>x. x \<in> set (includes_list (mods s a)) \<Longrightarrow> \<exists>n0. \<forall>n\<ge>n0. hasInclude n s x b \<noteq> None"
      using less by (simp add: includes_rel_def)
    then obtain n0 where n0: "\<forall>n\<ge>n0. \<forall>x\<in>set (includes_list (mods s a)). hasInclude n s x b \<noteq> None"
      using eventually_all [of "includes_list (mods s a)" "\<lambda>x n. hasInclude n s x b \<noteq> None"] by blast
    have "hasInclude n s a b \<noteq> None" if "n \<ge> Suc n0" for n
    proof -
      from that obtain k where k: "n = Suc k" "k \<ge> n0" by (cases n) auto
      have "hasInclude_loop (\<lambda>inc. hasInclude k s inc b) (includes_list (mods s a)) \<noteq> None"
        by (rule hasInclude_loop_defined) (use k n0 in blast)
      then show ?thesis using k by auto
    qed
    then show ?case by blast
  qed
qed

lemma hasInclude_decides:
  assumes "finite (includes_rel s)" "acyclic (includes_rel s)"
  shows "\<exists>n0. \<forall>n\<ge>n0. hasInclude n s a b = Some ((a, b) \<in> (includes_rel s)\<^sup>*)"
proof -
  from hasInclude_terminates [OF assms] obtain n0 where "\<forall>n\<ge>n0. hasInclude n s a b \<noteq> None"
    by blast
  then have "\<forall>n\<ge>n0. hasInclude n s a b = Some ((a, b) \<in> (includes_rel s)\<^sup>*)"
    using hasInclude_sound by fastforce
  then show ?thesis by blast
qed


lemma lists_file_dep:
  assumes "file_dep s t p tag = (r, s')"
  shows "includes_list (mods s' x) = includes_list (mods s x)"
    and "imports_list (mods s' x) = imports_list (mods s x)"
    and "excludes_list (mods s' x) = excludes_list (mods s x)"
  using assms by (auto simp: file_dep_def mods_upd split: option.splits)

lemma include_module_refused:
  assumes "hasInclude n s m t = Some True"
  shows "include_module n s t m = Some (Inr False, s)"
  using assms by (simp add: include_module_def)

lemma include_module_passed:
  assumes "hasInclude n s m t = Some False"
    and "s1 = upd s t (\<lambda>m'. m'\<lparr>includes_list := includes_list m' @ [m]\<rparr>)"
  shows "include_module n s t m =
        (if truthy (srcPath (mods s1 m)) then
           (case file_dep s1 t (the (srcPath (mods s1 m))) ''WebPack:include'' of
              (Inl e, s2) \<Rightarrow> Some (Inl e, s2)
            | (Inr u, s2) \<Rightarrow> Some (Inr True, s2))
         else Some (Inr True, s1))"
  unfolding include_module_def Let_def assms(2) using assms(1) by simp

lemma include_module_accepted:
  assumes h: "hasInclude n s m t = Some False"
    and f: "truthy (srcPath (mods s m)) \<longrightarrow> file_ref (mods s t) \<noteq> None"
  shows "\<exists>s'. include_module n s t m = Some (Inr True, s')"
proof -
  define s1 where "s1 = upd s t (\<lambda>m'. m'\<lparr>includes_list := includes_list m' @ [m]\<rparr>)"
  have p: "srcPath (mods s1 m) = srcPath (mods s m)" by (simp add: s1_def mods_upd)
  have q: "file_ref (mods s1 t) = file_ref (mods s t)" by (simp add: s1_def mods_upd)
  note unf = include_module_passed [OF h s1_def]
  show ?thesis
  proof (cases "truthy (srcPath (mods s1 m))")
    case True
    with f p q obtain fl where "file_ref (mods s1 t) = Some fl" by auto
    then have "\<exists>s2. file_dep s1 t (the (srcPath (mods s1 m))) ''WebPack:include'' = (Inr (), s2)"
      by (simp add: file_dep_def)
    then obtain s2
      where "file_dep s1 t (the (srcPath (mods s1 m))) ''WebPack:include'' = (Inr (), s2)" ..
    with unf True have "include_module n s t m = Some (Inr True, s2)" by simp
    then show ?thesis ..
  next
    case False
    with unf have "include_module n s t m = Some (Inr True, s1)" by simp
    then show ?thesis ..
  qed
qed

lemma include_module_pushed:
  assumes h: "hasInclude n s m t = Some False" and r: "include_module n s t m = Some (r, s')"
  shows "r \<noteq> Inr False \<and> includes_list (mods s' t) = includes_list (mods s t) @ [m] \<and>
         (\<forall>x. x \<noteq> t \<longrightarrow> includes_list (mods s' x) = includes_list (mods s x)) \<and>
         (\<forall>x. imports_list (mods s' x) = imports_list (mods s x)) \<and>
         (\<forall>x. excludes_list (mods s' x) = excludes_list (mods s x))"
proof -
  define s1 where "s1 = upd s t (\<lambda>m'. m'\<lparr>includes_list := includes_list m' @ [m]\<rparr>)"
  have i1: "includes_list (mods s1 t) = includes_list (mods s t) @ [m]"
    by (simp add: s1_def mods_upd)
  have i2: "x \<noteq> t \<Longrightarrow> includes_list (mods s1 x) = includes_list (mods s x)" for x
    by (simp add: s1_def mods_upd)
  have i3: "imports_list (mods s1 x) = imports_list (mods s x)" for x
    by (simp add: s1_def mods_upd)
  have i4: "excludes_list (mods s1 x) = excludes_list (mods s x)" for x
    by (simp add: s1_def mods_upd)
  note unf = include_module_passed [OF h s1_def]
  show ?thesis
  proof (cases "truthy (srcPath (mods s1 m))")
    case True
    obtain r2 s2 where fd: "file_dep s1 t (the (srcPath (mods s1 m))) ''WebPack:include'' = (r2, s2)"
      using prod.exhaust by blast
    have "include_module n s t m =
            (case r2 of Inl e \<Rightarrow> Some (Inl e, s2) | Inr u \<Rightarrow> Some (Inr True, s2))"
      unfolding unf using True fd by simp
    with r [symmetric]
    have eq: "Some (r, s') = (case r2 of Inl e \<Rightarrow> Some (Inl e, s2) | Inr u \<Rightarrow> Some (Inr True, s2))"
      by (rule trans)
    have s2: "s' = s2" using eq by (cases r2) simp_all
    have rr: "r \<noteq> Inr False" using eq by (cases r2) auto
    have "includes_list (mods s2 x) = includes_list (mods s1 x)"
      and "imports_list (mods s2 x) = imports_list (mods s1 x)"
      and "excludes_list (mods s2 x) = excludes_list (mods s1 x)" for x
      using lists_file_dep [OF fd] by simp_all
    then show ?thesis using s2 rr i1 i2 i3 i4 by simp
  next
    case False
    with unf have "include_module n s t m = Some (Inr True, s1)" by simp
    with r [symmetric] have "Some (r, s') = Some (Inr True, s1)" by (rule trans)
    then have "s' = s1" "r = Inr True" by simp_all
    then show ?thesis using i1 i2 i3 i4 by simp
  qed
qed

lemma include_module_cases:
  assumes "include_module n s t m = Some (r, s')"
  shows "(r = Inr False \<and> s' = s \<and> (m, t) \<in> (includes_rel s)\<^sup>*) \<or>
         (r \<noteq> Inr False \<and> (m, t) \<notin> (includes_rel s)\<^sup>* \<and>
          includes_list (mods s' t) = includes_list (mods s t) @ [m] \<and>
          (\<forall>x. x \<noteq> t \<longrightarrow> includes_list (mods s' x) = includes_list (mods s x)) \<and>
          (\<forall>x. imports_list (mods s' x) = imports_list (mods s x)) \<and>
          (\<forall>x. excludes_list (mods s' x) = excludes_list (mods s x)))"
proof -
  from assms obtain b where b: "hasInclude n s m t = Some b"
    by (cases "hasInclude n s m t") (simp_all add: include_module_def)
  then have bq: "b = ((m, t) \<in> (includes_rel s)\<^sup>*)" by (rule hasInclude_sound)
  show ?thesis
  proof (cases b)
    case True
    with b have "include_module n s t m = Some (Inr False, s)" by (simp add: include_module_refused)
    with assms [symmetric] have "Some (r, s') = Some (Inr False, s)" by (rule trans)
    with True bq show ?thesis by simp
  next
    case False
    with b have "hasInclude n s m t = Some False" by simp
    from include_module_pushed [OF this assms] False bq show ?thesis by simp
  qed
qed


lemma includes_rel_push:
  assumes "includes_list (mods s' t) = includes_list (mods s t) @ [m]"
    "\<forall>x. x \<noteq> t \<longrightarrow> includes_list (mods s' x) = includes_list (mods s x)"
  shows "includes_rel s' = insert (t, m) (includes_rel s)"
proof -
  have "(x, y) \<in> includes_rel s' \<longleftrightarrow> (x, y) \<in> insert (t, m) (includes_rel s)" for x y
  proof (cases "x = t")
    case True
    then show ?thesis using assms(1) by (auto simp: includes_rel_def)
  next
    case False
    then show ?thesis using assms(2) by (auto simp: includes_rel_def)
  qed
  then show ?thesis by auto
qed

lemma include_module_ok:
  assumes "includes_ok s" "include_module n s t m = Some (r, s')"
  shows "includes_ok s'"
  using include_module_cases [OF assms(2)]
proof
  assume "r = Inr False \<and> s' = s \<and> (m, t) \<in> (includes_rel s)\<^sup>*"
  with assms show ?thesis by simp
next
  assume a: "r \<noteq> Inr False \<and> (m, t) \<notin> (includes_rel s)\<^sup>* \<and>
          includes_list (mods s' t) = includes_list (mods s t) @ [m] \<and>
          (\<forall>x. x \<noteq> t \<longrightarrow> includes_list (mods s' x) = includes_list (mods s x)) \<and>
          (\<forall>x. imports_list (mods s' x) = imports_list (mods s x)) \<and>
          (\<forall>x. excludes_list (mods s' x) = excludes_list (mods s x))"
  then have "includes_rel s' = insert (t, m) (includes_rel s)" using includes_rel_push by blast
  then show ?thesis using assms(1) a by (simp add: includes_ok_def)
qed

lemma include_calls_ok:
  "includes_ok s \<Longrightarrow> include_calls s cs = Some s' \<Longrightarrow> includes_ok s'"
proof (induction cs arbitrary: s)
  case Nil
  then show ?case by simp
next
  case (Cons c cs)
  obtain n t m where c: "c = (n, t, m)" by (cases c)
  with Cons.prems obtain r s1 where 1: "include_module n s t m = Some (r, s1)"
    and 2: "include_calls s1 cs = Some s'"
    by (cases "include_module n s t m") auto
  show ?case using Cons.IH [OF include_module_ok [OF Cons.prems(1) 1] 2] .
qed

lemma empty_ok: "\<forall>x. includes_list (mods s x) = [] \<Longrightarrow> includes_ok s"
  by (simp add: includes_ok_def includes_rel_def acyclic_def)



text \<open>
  Claim C3. Let the state \<open>s\<close> be reached by a sequence of calls of \<^verbatim>\<open>include\<close> from
  a state in which every list of includes is empty. Then in \<open>s\<close> no module is reachable
  from itself through the includes relation, and every further call \<open>t.include(m)\<close>
  returns once the bound on the depth is large enough. If \<open>t\<close> is reachable from \<open>m\<close>
  the call returns false and the state is unchanged. A call that returns true has
  appended \<open>m\<close> to the list of \<open>t\<close> and changed no other list of includes; and a call
  where \<open>t\<close> is not reachable from \<open>m\<close> does return true, unless \<open>m\<close> has a source
  path and the file of \<open>t\<close> is already deleted (then \<^verbatim>\<open>this.file.dep\<close> raises).
\<close>

theorem includes_acyclic:
  assumes "\<forall>x. includes_list (mods s0 x) = []" and "include_calls s0 cs = Some s"
  shows "(\<forall>x. (x, x) \<notin> (includes_rel s)\<^sup>+) \<and>
    (\<exists>n0. \<forall>k\<ge>n0. \<exists>r s'. include_module k s t m = Some (r, s')) \<and>
    ((m, t) \<in> (includes_rel s)\<^sup>* \<longrightarrow>
       (\<exists>n0. \<forall>k\<ge>n0. include_module k s t m = Some (Inr False, s))) \<and>
    (\<forall>k s'. include_module k s t m = Some (Inr True, s') \<longrightarrow>
       includes_list (mods s' t) = includes_list (mods s t) @ [m] \<and>
       (\<forall>x. x \<noteq> t \<longrightarrow> includes_list (mods s' x) = includes_list (mods s x))) \<and>
    ((m, t) \<notin> (includes_rel s)\<^sup>* \<and>
     (truthy (srcPath (mods s m)) \<longrightarrow> file_ref (mods s t) \<noteq> None) \<longrightarrow>
       (\<exists>n0. \<forall>k\<ge>n0. \<exists>s'. include_module k s t m = Some (Inr True, s')))"
proof -
  have ok: "includes_ok s" using include_calls_ok [OF empty_ok [OF assms(1)] assms(2)] .
  then have 1: "\<forall>x. (x, x) \<notin> (includes_rel s)\<^sup>+" by (simp add: includes_ok_def acyclic_def)
  from ok have "finite (includes_rel s)" "acyclic (includes_rel s)"
    by (simp_all add: includes_ok_def)
  from hasInclude_decides [OF this, of m t]
  obtain n0 where n0: "\<forall>k\<ge>n0. hasInclude k s m t = Some ((m, t) \<in> (includes_rel s)\<^sup>*)"
    by blast
  have "\<exists>r s'. include_module k s t m = Some (r, s')" if "k \<ge> n0" for k
  proof -
    from n0 that have "hasInclude k s m t \<noteq> None" by simp
    then have "include_module k s t m \<noteq> None"
      by (auto simp: include_module_def Let_def split: option.splits prod.splits sum.splits)
    then show ?thesis by auto
  qed
  then have 2: "\<exists>n0. \<forall>k\<ge>n0. \<exists>r s'. include_module k s t m = Some (r, s')" by blast
  have 3: "(m, t) \<in> (includes_rel s)\<^sup>* \<longrightarrow>
           (\<exists>n0. \<forall>k\<ge>n0. include_module k s t m = Some (Inr False, s))"
  proof
    assume reach: "(m, t) \<in> (includes_rel s)\<^sup>*"
    have "include_module k s t m = Some (Inr False, s)" if "k \<ge> n0" for k
    proof -
      from n0 that reach have "hasInclude k s m t = Some True" by simp
      then show ?thesis by (rule include_module_refused)
    qed
    then show "\<exists>n0. \<forall>k\<ge>n0. include_module k s t m = Some (Inr False, s)" by blast
  qed
  have 4: "\<forall>k s'. include_module k s t m = Some (Inr True, s') \<longrightarrow>
       includes_list (mods s' t) = includes_list (mods s t) @ [m] \<and>
       (\<forall>x. x \<noteq> t \<longrightarrow> includes_list (mods s' x) = includes_list (mods s x))"
  proof (intro allI impI)
    fix k s'
    assume a: "include_module k s t m = Some (Inr True, s')"
    show "includes_list (mods s' t) = includes_list (mods s t) @ [m] \<and>
       (\<forall>x. x \<noteq> t \<longrightarrow> includes_list (mods s' x) = includes_list (mods s x))"
      using include_module_cases [OF a] by simp
  qed
  have 5: "(m, t) \<notin> (includes_rel s)\<^sup>* \<and>
     (truthy (srcPath (mods s m)) \<longrightarrow> file_ref (mods s t) \<noteq> None) \<longrightarrow>
       (\<exists>n0. \<forall>k\<ge>n0. \<exists>s'. include_module k s t m = Some (Inr True, s'))"
  proof
    assume a: "(m, t) \<notin> (includes_rel s)\<^sup>* \<and>
      (truthy (srcPath (mods s m)) \<longrightarrow> file_ref (mods s t) \<noteq> None)"
    have "\<exists>s'. include_module k s t m = Some (Inr True, s')" if "k \<ge> n0" for k
    proof -
      from n0 that a have "hasInclude k s m t = Some False" by simp
      then show ?thesis using a by (intro include_module_accepted) simp_all
    qed
    then show "\<exists>n0. \<forall>k\<ge>n0. \<exists>s'. include_module k s t m = Some (Inr True, s')" by blast
  qed
  show ?thesis by (rule conjI [OF 1 conjI [OF 2 conjI [OF 3 conjI [OF 4 5]]]])
qed

theorem includes_acyclic_witness:
  "include_calls fresh [(Suc (Suc 0), 0, 1)] = Some one_include \<and>
   (0, 0) \<notin> (includes_rel one_include)\<^sup>+ \<and>
   (\<exists>n0. \<forall>k\<ge>n0. include_module k one_include 1 0 = Some (Inr False, one_include)) \<and>
   includes_list (mods one_include 0) = includes_list (mods fresh 0) @ [1] \<and>
   (\<exists>n0. \<forall>k\<ge>n0. \<exists>s'. include_module k one_include 0 2 = Some (Inr True, s'))"
proof -
  have e: "\<forall>x. includes_list (mods fresh x) = []" by (simp add: fresh_def blank_def)
  have 0: "include_module (Suc (Suc 0)) fresh 0 1 = Some (Inr True, one_include)"
    by (simp add: include_module_def one_include_def fresh_def blank_def upd_def truthy_def)
  have c: "include_calls fresh [(Suc (Suc 0), 0, 1)] = Some one_include"
    using 0 by simp
  have c0: "include_calls fresh [] = Some fresh" by simp
  have "(0, 1) \<in> includes_rel one_include"
    by (simp add: includes_rel_def one_include_def mods_upd)
  then have reach: "(0, 1) \<in> (includes_rel one_include)\<^sup>*" by (rule r_into_rtrancl)
  from includes_acyclic [OF e c, of 1 0] reach
  have a: "(0, 0) \<notin> (includes_rel one_include)\<^sup>+"
    and b: "\<exists>n0. \<forall>k\<ge>n0. include_module k one_include 1 0 = Some (Inr False, one_include)"
    by blast+
  from includes_acyclic [OF e c0, of 0 1] 0
  have d: "includes_list (mods one_include 0) = includes_list (mods fresh 0) @ [1]"
    by blast
  have "hasInclude (Suc (Suc 0)) one_include 2 0 = Some False"
    by (simp add: one_include_def fresh_def blank_def upd_def)
  then have apart: "(2, 0) \<notin> (includes_rel one_include)\<^sup>*"
    using hasInclude_sound by blast
  have nameless: "\<not> truthy (srcPath (mods one_include 2))"
    by (simp add: one_include_def fresh_def blank_def upd_def truthy_def)
  from includes_acyclic [OF e c, of 0 2] apart nameless
  have f: "\<exists>n0. \<forall>k\<ge>n0. \<exists>s'. include_module k one_include 0 2 = Some (Inr True, s')"
    by blast
  show ?thesis using a b c d f by simp
qed

section \<open>Self edges\<close>

lemma no_self_lists:
  assumes "no_self_edges s"
    and "\<And>x. includes_list (mods s' x) = includes_list (mods s x)"
    and "\<And>x. imports_list (mods s' x) = imports_list (mods s x)"
    and "\<And>x. excludes_list (mods s' x) = excludes_list (mods s x)"
  shows "no_self_edges s'"
  using assms by (simp add: no_self_edges_def)

lemma no_self_file_dep:
  assumes "no_self_edges s" and "file_dep s t p tag = (r, s')"
  shows "no_self_edges s'"
  using assms(1) lists_file_dep [OF assms(2)] by (rule no_self_lists)

lemma no_self_import:
  assumes "no_self_edges s" and "import s t m = (r, s')"
  shows "no_self_edges s'"
proof (cases "m = t")
  case True
  with assms show ?thesis by (simp add: import_def)
next
  case False
  let ?s1 = "upd s t (\<lambda>m'. m'\<lparr>imports_list := imports_list m' @ [m]\<rparr>)"
  have n1: "no_self_edges ?s1" using assms(1) False by (simp add: no_self_edges_def mods_upd)
  show ?thesis
  proof (cases "truthy (srcPath (mods ?s1 m))")
    case True
    with assms(2) False
    have "file_dep ?s1 t (the (srcPath (mods ?s1 m))) ''WebPack:import'' = (r, s')"
      by (simp add: import_def Let_def)
    with n1 show ?thesis by (rule no_self_file_dep)
  next
    case unrecorded: False
    with assms(2) False have "s' = ?s1" by (simp add: import_def Let_def)
    with n1 show ?thesis by simp
  qed
qed

lemma no_self_exclude:
  assumes "no_self_edges s" and "exclude s t m = (r, s')"
  shows "no_self_edges s'"
proof (cases "m = t")
  case True
  with assms show ?thesis by (simp add: exclude_def)
next
  case False
  let ?s1 = "upd s t (\<lambda>m'. m'\<lparr>excludes_list := excludes_list m' @ [m]\<rparr>)"
  have n1: "no_self_edges ?s1" using assms(1) False by (simp add: no_self_edges_def mods_upd)
  show ?thesis
  proof (cases "truthy (srcPath (mods ?s1 m))")
    case True
    with assms(2) False
    have "file_dep ?s1 t (the (srcPath (mods ?s1 m))) ''WebPack:exclude'' = (r, s')"
      by (simp add: exclude_def Let_def)
    with n1 show ?thesis by (rule no_self_file_dep)
  next
    case unrecorded: False
    with assms(2) False have "s' = ?s1" by (simp add: exclude_def Let_def)
    with n1 show ?thesis by simp
  qed
qed

lemma no_self_include_module:
  assumes "no_self_edges s" and "include_module n s t m = Some (r, s')"
  shows "no_self_edges s'"
  using include_module_cases [OF assms(2)]
proof
  assume "r = Inr False \<and> s' = s \<and> (m, t) \<in> (includes_rel s)\<^sup>*"
  with assms(1) show ?thesis by simp
next
  assume a: "r \<noteq> Inr False \<and> (m, t) \<notin> (includes_rel s)\<^sup>* \<and>
          includes_list (mods s' t) = includes_list (mods s t) @ [m] \<and>
          (\<forall>x. x \<noteq> t \<longrightarrow> includes_list (mods s' x) = includes_list (mods s x)) \<and>
          (\<forall>x. imports_list (mods s' x) = imports_list (mods s x)) \<and>
          (\<forall>x. excludes_list (mods s' x) = excludes_list (mods s x))"
  then have "m \<noteq> t" by auto
  have "x \<notin> set (includes_list (mods s' x))" for x
  proof (cases "x = t")
    case True
    with a \<open>m \<noteq> t\<close> assms(1) show ?thesis by (simp add: no_self_edges_def)
  next
    case False
    with a assms(1) show ?thesis by (simp add: no_self_edges_def)
  qed
  with a assms(1) show ?thesis by (simp add: no_self_edges_def)
qed

lemma no_self_invoke:
  assumes "no_self_edges s" and "invoke s t cb arg = (r, s')"
  shows "no_self_edges s'"
proof -
  let ?s1 = "s\<lparr>calls := calls s @ [(t, cb, arg)]\<rparr>"
  have n1: "no_self_edges ?s1" using assms(1) by (simp add: no_self_edges_def)
  show ?thesis
  proof (cases arg)
    case None
    with assms(2) have "s' = ?s1" by (simp add: invoke_def)
    with n1 show ?thesis by simp
  next
    case (Some m)
    show ?thesis
    proof (cases cb)
      case ImportCallback
      with assms(2) Some have "import ?s1 t m = (r, s')" by (simp add: invoke_def)
      with n1 show ?thesis by (rule no_self_import)
    next
      case ExcludeCallback
      with assms(2) Some have "exclude ?s1 t m = (r, s')" by (simp add: invoke_def)
      with n1 show ?thesis by (rule no_self_exclude)
    qed
  qed
qed

lemma no_self_resolve:
  assumes "no_self_edges s" and "resolve n s t = Some (r, s')"
  shows "no_self_edges s'"
proof (rule resolve_preserves [of no_self_edges, OF _ _ _ assms])
  show "no_self_edges b" if "no_self_edges a" "invoke a t' cb arg = (r', b)" for a t' cb arg r' b
    using that by (rule no_self_invoke)
  show "no_self_edges (upd a t' (\<lambda>m. m\<lparr>resolved := True\<rparr>))" if "no_self_edges a" for a t'
    using that by (simp add: no_self_edges_def mods_upd)
  show "no_self_edges (upd a t' (\<lambda>m. m\<lparr>requires := None, file_ref := None\<rparr>))"
    if "no_self_edges a" for a t'
    using that by (simp add: no_self_edges_def mods_upd)
qed

text \<open>
  Claim C8. \<^verbatim>\<open>import\<close> and \<^verbatim>\<open>exclude\<close> of a module on itself return with the
  state unchanged, and \<^verbatim>\<open>include\<close> of a module on itself returns false with the state
  unchanged. Hence a state in which no module is an entry of its own list of includes,
  imports or excludes stays so under every call of \<^verbatim>\<open>import\<close>, \<^verbatim>\<open>exclude\<close>,
  \<^verbatim>\<open>include\<close> and \<^verbatim>\<open>resolve\<close>, which are all the operations that write these
  lists.
\<close>

theorem self_edge_rejection:
  "import s m m = (Inr (), s) \<and>
   exclude s m m = (Inr (), s) \<and>
   include_module (Suc n) s m m = Some (Inr False, s) \<and>
   (no_self_edges s \<longrightarrow>
      no_self_edges (snd (import s t x)) \<and>
      no_self_edges (snd (exclude s t x)) \<and>
      (\<forall>k r s'. include_module k s t x = Some (r, s') \<longrightarrow> no_self_edges s') \<and>
      (\<forall>k r s'. resolve k s t = Some (r, s') \<longrightarrow> no_self_edges s'))"
proof -
  have 1: "import s m m = (Inr (), s)" by (simp add: import_def)
  have 2: "exclude s m m = (Inr (), s)" by (simp add: exclude_def)
  have 3: "include_module (Suc n) s m m = Some (Inr False, s)" by (simp add: include_module_def)
  have 4: "no_self_edges (snd (import s t x))" if "no_self_edges s"
    using that by (rule no_self_import) (rule prod.collapse [symmetric])
  have 5: "no_self_edges (snd (exclude s t x))" if "no_self_edges s"
    using that by (rule no_self_exclude) (rule prod.collapse [symmetric])
  have 6: "\<forall>k r s'. include_module k s t x = Some (r, s') \<longrightarrow> no_self_edges s'"
    if "no_self_edges s"
    using that no_self_include_module by blast
  have 7: "\<forall>k r s'. resolve k s t = Some (r, s') \<longrightarrow> no_self_edges s'" if "no_self_edges s"
    using that no_self_resolve by blast
  show ?thesis using 1 2 3 4 5 6 7 by blast
qed

theorem self_edge_rejection_witness:
  "no_self_edges pending_graph \<and>
   import pending_graph 0 0 = (Inr (), pending_graph) \<and>
   no_self_edges (snd (import pending_graph 0 1)) \<and>
   no_self_edges resolved_graph"
proof -
  have n: "no_self_edges pending_graph"
    by (simp add: no_self_edges_def pending_graph_def blank_def settled_def)
  from self_edge_rejection [of pending_graph 0 0 0 1] n resolve_pending_graph
  show ?thesis by blast
qed

end
